theory Spec2Isabelle
  imports Complex_Main "HOL-Library.Multiset"
begin

section \<open>Numeric conventions\<close>

text \<open>
  The program is written in C over \<^verbatim>\<open>double\<close> and \<^verbatim>\<open>int\<close>.  A \<^verbatim>\<open>double\<close> is
  modelled by a real number (exact arithmetic, no rounding, no infinities), so that
  \<^verbatim>\<open>fmin\<close> is \<open>min\<close> and \<^verbatim>\<open>sqrt(3)\<close> is \<open>sqrt 3\<close>; an \<^verbatim>\<open>int\<close> is modelled by an
  unbounded integer (signed overflow is undefined in C and lies outside the model).
  The two places where C and HOL arithmetic differ are written out: the conversion
  \<^verbatim>\<open>(int)x\<close> truncates toward zero, and so does integer division.  A division of a
  \<^verbatim>\<open>double\<close> by zero yields an infinity or a NaN whose conversion to \<^verbatim>\<open>int\<close> is
  undefined; the model reports it as a fault instead of using HOL's \<open>x / 0 = 0\<close>.

  The macro \<^verbatim>\<open>LARGE_RECT_WIDTH\<close> is the integer literal 360.  Every use of it is an
  operation with a \<^verbatim>\<open>double\<close> or a product of integers converted to one, so it is a
  real number here.
\<close>

definition c_int :: "real \<Rightarrow> int" where
  "c_int x = (if 0 \<le> x then \<lfloor>x\<rfloor> else \<lceil>x\<rceil>)"

definition c_div :: "int \<Rightarrow> int \<Rightarrow> int" where
  "c_div a b = sgn a * sgn b * (\<bar>a\<bar> div \<bar>b\<bar>)"

datatype fault = Undefined_Conversion | Buffer_Overrun

definition LARGE_RECT_WIDTH :: real where
  "LARGE_RECT_WIDTH = 360"

definition HEIGHT :: int where
  "HEIGHT = 36"

section \<open>\<^verbatim>\<open>compute_min_width\<close>\<close>

subsection \<open>Flat-topped packing\<close>

text \<open>
  The inner \<^verbatim>\<open>for (int i = 0; i < rows_flat; i++)\<close> loop, started at \<open>i\<close> with the
  running sum \<open>tot\<close>.
\<close>

function flat_row_loop :: "real \<Rightarrow> real \<Rightarrow> int \<Rightarrow> int \<Rightarrow> int \<Rightarrow> int" where
  "flat_row_loop r width_flat rows_flat i tot =
     (if i < rows_flat
      then flat_row_loop r width_flat rows_flat (i + 1)
             (tot + (if i mod 2 = 0 then c_int (width_flat / (2 * r))
                       else c_int ((width_flat - r) / (2 * r))))
      else tot)"
  by pat_completeness auto
termination
  by (relation "measure (\<lambda>(r, w, rows, i, tot). nat (rows - i))") auto

text \<open>
  The \<^verbatim>\<open>while (total_circles_flat < n)\<close> loop.  It has no bound in the source, so it
  is a partial function: \<open>None\<close> is "never leaves the loop".
\<close>

partial_function (option) flat_loop :: "real \<Rightarrow> int \<Rightarrow> int \<Rightarrow> int \<Rightarrow> real \<Rightarrow> real option" where
  "flat_loop r rows_flat n total_circles_flat width_flat =
     (if total_circles_flat < n
      then flat_loop r rows_flat n
             (flat_row_loop r (width_flat + 2 * r) rows_flat 0 0) (width_flat + 2 * r)
      else Some width_flat)"

definition flat_width :: "real \<Rightarrow> int \<Rightarrow> int \<Rightarrow> real option" where
  "flat_width r height n = flat_loop r (c_int (of_int height / (2 * r))) n 0 0"

subsection \<open>Pointy-topped packing\<close>

function pointy_col_loop :: "int \<Rightarrow> int \<Rightarrow> int \<Rightarrow> int \<Rightarrow> int" where
  "pointy_col_loop rows_pointy columns_pointy i tot =
     (if i < columns_pointy
      then pointy_col_loop rows_pointy columns_pointy (i + 1)
             (tot + (if i mod 2 = 0 then rows_pointy
                       else (if rows_pointy > 0 then rows_pointy - 1 else 0)))
      else tot)"
  by pat_completeness auto
termination
  by (relation "measure (\<lambda>(rows, cols, i, tot). nat (cols - i))") auto

text \<open>
  The \<^verbatim>\<open>while (total_circles_pointy < n)\<close> loop; it returns the value of
  \<^verbatim>\<open>columns_pointy\<close> on exit, which has been incremented once after the last capacity
  was computed.
\<close>

partial_function (option) pointy_loop :: "int \<Rightarrow> int \<Rightarrow> int \<Rightarrow> int \<Rightarrow> int option" where
  "pointy_loop rows_pointy n total_circles_pointy columns_pointy =
     (if total_circles_pointy < n
      then pointy_loop rows_pointy n
             (pointy_col_loop rows_pointy columns_pointy 0 0) (columns_pointy + 1)
      else Some columns_pointy)"

definition rows_pointy_of :: "real \<Rightarrow> int \<Rightarrow> int" where
  "rows_pointy_of r height = c_int (of_int height / (sqrt 3 * r))"

definition pointy_columns :: "real \<Rightarrow> int \<Rightarrow> int \<Rightarrow> int option" where
  "pointy_columns r height n = pointy_loop (rows_pointy_of r height) n 0 1"

definition pointy_width_of :: "real \<Rightarrow> int \<Rightarrow> real" where
  "pointy_width_of r columns_pointy =
     (if columns_pointy = 1 then 2 * r
      else 2 * r + of_int (columns_pointy - 2) * r * sqrt 3)"

definition pointy_width :: "real \<Rightarrow> int \<Rightarrow> int \<Rightarrow> real option" where
  "pointy_width r height n = map_option (pointy_width_of r) (pointy_columns r height n)"

subsection \<open>Regular grid packing\<close>

definition rows_regular_of :: "real \<Rightarrow> int \<Rightarrow> int" where
  "rows_regular_of r height =
     (let rows_regular = c_int (of_int height / (2 * r))
      in if rows_regular < 1 then 1 else rows_regular)"

definition regular_width :: "real \<Rightarrow> int \<Rightarrow> int \<Rightarrow> real" where
  "regular_width r height n =
     (let rows_regular = rows_regular_of r height;
          columns_regular = c_div (n + rows_regular - 1) rows_regular
      in 2 * r * of_int columns_regular)"

subsection \<open>Selection and report\<close>

text \<open>
  The function stores the minimum through \<^verbatim>\<open>best_width\<close> and prints one line naming a
  packing and its width.  \<open>smallest_width\<close> is the source's selector (0, 1 or 2) and
  \<open>packing_name\<close> its \<^verbatim>\<open>switch\<close>.
\<close>

record solution =
  best_width :: real
  smallest_width :: int
  printed_width :: real


definition select_width :: "real \<Rightarrow> real \<Rightarrow> real \<Rightarrow> solution" where
  "select_width width_flat width_pointy width_regular =
     (let smallest =
            (if width_flat < width_pointy \<and> width_flat < width_regular then 1
             else if width_pointy < width_flat \<and> width_pointy < width_regular then 2
             else 0)
      in \<lparr>best_width = min (min width_flat width_pointy) width_regular,
          smallest_width = smallest,
          printed_width =
            (if smallest = 1 then width_flat
             else if smallest = 2 then width_pointy
             else width_regular)\<rparr>)"

definition compute_min_width :: "real \<Rightarrow> int \<Rightarrow> int \<Rightarrow> (fault + solution) option" where
  "compute_min_width radius height num_circles =
     (if radius = 0 then Some (Inl Undefined_Conversion)
      else
        (case flat_width radius height num_circles of
           None \<Rightarrow> None
         | Some width_flat \<Rightarrow>
             (case pointy_width radius height num_circles of
                None \<Rightarrow> None
              | Some width_pointy \<Rightarrow>
                  Some (Inr (select_width width_flat width_pointy
                               (regular_width radius height num_circles))))))"

section \<open>\<^verbatim>\<open>adjust_best_widths\<close>\<close>

text \<open>
  The function collects the pieces in the local array
  \<^verbatim>\<open>double adjusted_widths[new_num_radii * 2]\<close> and copies them back over the caller's
  array.  Both arrays have a fixed length, and a C store past the end is undefined, so
  the model carries the lengths: \<open>store len buf v\<close> is
  \<^verbatim>\<open>adjusted_widths[idx++] = v\<close> for an array of \<open>len\<close> elements whose first \<open>idx\<close>
  elements are \<open>buf\<close>, and \<open>room\<close> is the number of elements of the array behind the
  caller's \<^verbatim>\<open>best_widths\<close> pointer (in \<^verbatim>\<open>main\<close> it is \<^verbatim>\<open>num_radii\<close>).  The macro
  \<^verbatim>\<open>LARGE_RECT_WIDTH\<close> is the parameter \<open>W\<close> of the functions whose name ends in \<open>_w\<close>.
\<close>

definition store :: "nat \<Rightarrow> real list \<Rightarrow> real \<Rightarrow> fault + real list" where
  "store len buf v = (if length buf < len then Inr (buf @ [v]) else Inl Buffer_Overrun)"

function fill_parts :: "nat \<Rightarrow> real \<Rightarrow> int \<Rightarrow> int \<Rightarrow> real list \<Rightarrow> fault + real list" where
  "fill_parts len W parts j buf =
     (if j < parts
      then (case store len buf W of
              Inl e \<Rightarrow> Inl e
            | Inr buf' \<Rightarrow> fill_parts len W parts (j + 1) buf')
      else Inr buf)"
  by pat_completeness auto
termination
  by (relation "measure (\<lambda>(len, W, parts, j, buf). nat (parts - j))") auto

definition adjust_one :: "nat \<Rightarrow> real \<Rightarrow> real \<Rightarrow> real list \<Rightarrow> fault + real list" where
  "adjust_one len W w buf =
     (if w > W
      then (if W = 0 then Inl Undefined_Conversion
            else
              (let parts = c_int (w / W);
                   remainder = w - of_int parts * W
               in case fill_parts len W parts 0 buf of
                    Inl e \<Rightarrow> Inl e
                  | Inr buf' \<Rightarrow>
                      (if remainder > 0 then store len buf' remainder else Inr buf')))
      else store len buf w)"

fun adjust_loop :: "nat \<Rightarrow> real \<Rightarrow> real list \<Rightarrow> real list \<Rightarrow> fault + real list" where
  "adjust_loop len W [] buf = Inr buf"
| "adjust_loop len W (w # ws) buf =
     (case adjust_one len W w buf of
        Inl e \<Rightarrow> Inl e
      | Inr buf' \<Rightarrow> adjust_loop len W ws buf')"

text \<open>
  The result \<open>Inr xs\<close> is the new content \<^verbatim>\<open>best_widths[0 .. idx-1]\<close> with
  \<^verbatim>\<open>*num_radii = idx = length xs\<close>.
\<close>

definition adjust_best_widths_w :: "real \<Rightarrow> nat \<Rightarrow> real list \<Rightarrow> fault + real list" where
  "adjust_best_widths_w W room best_widths =
     (case adjust_loop (length best_widths * 2) W best_widths [] of
        Inl e \<Rightarrow> Inl e
      | Inr adjusted_widths \<Rightarrow>
          (if length adjusted_widths \<le> room then Inr adjusted_widths
           else Inl Buffer_Overrun))"

definition adjust_best_widths :: "nat \<Rightarrow> real list \<Rightarrow> fault + real list" where
  "adjust_best_widths = adjust_best_widths_w LARGE_RECT_WIDTH"

text \<open>
  The splitting rule in the words of the specification, for one width: the strips it
  emits.
\<close>

definition spec_split :: "real \<Rightarrow> real \<Rightarrow> real list" where
  "spec_split C w =
     (if w > C
      then replicate (nat \<lfloor>w / C\<rfloor>) C @
           (if w - of_int \<lfloor>w / C\<rfloor> * C > 0 then [w - of_int \<lfloor>w / C\<rfloor> * C] else [])
      else [w])"

section \<open>\<^verbatim>\<open>pack_rectangles\<close>\<close>

definition compare_desc :: "real \<Rightarrow> real \<Rightarrow> int" where
  "compare_desc a b =
     (let diff = b - a in if diff > 0 then 1 else if diff < 0 then - 1 else 0)"

text \<open>
  \<^verbatim>\<open>qsort\<close> belongs to the C library.  Its contract is a permutation of the array
  ordered by the comparison function; \<open>compare_desc\<close> is a total order on the values
  and equal values are indistinguishable, so every conforming \<^verbatim>\<open>qsort\<close> produces
  the same array as this insertion sort.
\<close>

fun insert_desc :: "real \<Rightarrow> real list \<Rightarrow> real list" where
  "insert_desc x [] = [x]"
| "insert_desc x (y # ys) =
     (if compare_desc x y \<le> 0 then x # y # ys else y # insert_desc x ys)"

definition qsort_desc :: "real list \<Rightarrow> real list" where
  "qsort_desc xs = foldr insert_desc xs []"

text \<open>
  One large rectangle \<open>j\<close>: \<^verbatim>\<open>remaining_space[j]\<close> and the strips
  \<^verbatim>\<open>packed_rects[j][0 .. packed_counts[j]-1]\<close>.  The list of rectangles has
  \<^verbatim>\<open>large_rect_count\<close> entries.
\<close>

record large_rect =
  remaining_space :: real
  packed_rects :: "real list"

text \<open>The scan \<^verbatim>\<open>for (j = 0; j < large_rect_count; j++)\<close>; \<open>None\<close> is \<^verbatim>\<open>placed == 0\<close>.\<close>

fun first_fit :: "real \<Rightarrow> large_rect list \<Rightarrow> large_rect list option" where
  "first_fit w [] = None"
| "first_fit w (b # bs) =
     (if remaining_space b \<ge> w
      then Some (b\<lparr>remaining_space := remaining_space b - w,
                    packed_rects := packed_rects b @ [w]\<rparr> # bs)
      else map_option ((#) b) (first_fit w bs))"

definition place :: "real \<Rightarrow> real \<Rightarrow> large_rect list \<Rightarrow> large_rect list" where
  "place W w rects =
     (case first_fit w rects of
        Some rects' \<Rightarrow> rects'
      | None \<Rightarrow> rects @ [\<lparr>remaining_space = W - w, packed_rects = [w]\<rparr>])"

fun pack_loop :: "real \<Rightarrow> real list \<Rightarrow> large_rect list \<Rightarrow> large_rect list" where
  "pack_loop W [] rects = rects"
| "pack_loop W (w # ws) rects = pack_loop W ws (place W w rects)"

fun waste_loop :: "large_rect list \<Rightarrow> real \<Rightarrow> real" where
  "waste_loop [] total_waste = total_waste"
| "waste_loop (b # bs) total_waste = waste_loop bs (total_waste + remaining_space b)"

text \<open>
  What the function prints: the count, the waste, the waste as a percentage and the
  strips of each rectangle.  With no rectangle the percentage is \<^verbatim>\<open>0.0 / 0\<close>, a NaN,
  written \<open>None\<close>.
\<close>

record packing =
  large_rect_count :: nat
  total_waste :: real
  waste_percent :: "real option"
  details :: "real list list"

definition pack_rectangles_w :: "real \<Rightarrow> real list \<Rightarrow> packing" where
  "pack_rectangles_w W small_widths =
     (let rects = pack_loop W (qsort_desc small_widths) [];
          waste = waste_loop rects 0
      in \<lparr>large_rect_count = length rects,
          total_waste = waste,
          waste_percent =
            (if length rects = 0 then None
             else Some (100 * waste / (of_nat (length rects) * W))),
          details = map packed_rects rects\<rparr>)"

definition pack_rectangles :: "real list \<Rightarrow> packing" where
  "pack_rectangles = pack_rectangles_w LARGE_RECT_WIDTH"

section \<open>\<^verbatim>\<open>main\<close>\<close>

text \<open>
  The program's data and its one run: the solver for every pair, the splitter over the
  array \<^verbatim>\<open>double best_widths[num_radii]\<close>, which has room for \<^verbatim>\<open>num_radii\<close> values, and
  the packing of what the splitter left there.
\<close>

definition radii :: "real list" where
  "radii = [4.5, 9.0, 3.0, 6.0, 1.5, 3.0, 6.0, 6.0, 3.0, 2.0, 1.5, 6.0, 6.0, 2.5, 6.0, 6.0,
            1.5, 2.5, 6.0, 6.0, 6.0, 6.0]"

definition num_circles :: "int list" where
  "num_circles = [25, 15, 50, 10, 120, 10, 100, 4, 50, 50, 15, 40, 40, 50, 7, 50, 100, 40,
                  2, 8, 12, 4]"

fun best_widths_loop :: "real list \<Rightarrow> int list \<Rightarrow> (fault + real list) option" where
  "best_widths_loop (r # rs) (n # ns) =
     (case compute_min_width r HEIGHT n of
        None \<Rightarrow> None
      | Some (Inl e) \<Rightarrow> Some (Inl e)
      | Some (Inr sol) \<Rightarrow>
          (case best_widths_loop rs ns of
             None \<Rightarrow> None
           | Some (Inl e) \<Rightarrow> Some (Inl e)
           | Some (Inr best_widths) \<Rightarrow> Some (Inr (best_width sol # best_widths))))"
| "best_widths_loop rs ns = Some (Inr [])"

definition main :: "(fault + real list \<times> packing) option" where
  "main =
     (case best_widths_loop radii num_circles of
        None \<Rightarrow> None
      | Some (Inl e) \<Rightarrow> Some (Inl e)
      | Some (Inr best_widths) \<Rightarrow>
          (case adjust_best_widths (length radii) best_widths of
             Inl e \<Rightarrow> Some (Inl e)
           | Inr adjusted \<Rightarrow> Some (Inr (adjusted, pack_rectangles adjusted))))"

section \<open>Auxiliary definitions for the proofs\<close>

text \<open>Both inner counting loops add two alternating amounts; this is their common shape.\<close>

function alt_loop :: "int \<Rightarrow> int \<Rightarrow> int \<Rightarrow> int \<Rightarrow> int \<Rightarrow> int" where
  "alt_loop a b m i tot =
     (if i < m then alt_loop a b m (i + 1) (tot + (if i mod 2 = 0 then a else b)) else tot)"
  by pat_completeness auto
termination
  by (relation "measure (\<lambda>(a, b, m, i, tot). nat (m - i))") auto

text \<open>
  The capacity the flat-topped loop computes after its \<open>k\<close>-th increment of the width,
  and the capacity the pointy-topped loop computes for \<open>c\<close> columns.
\<close>

definition flat_capacity :: "real \<Rightarrow> int \<Rightarrow> int \<Rightarrow> int" where
  "flat_capacity r rows_flat k = flat_row_loop r (of_int k * (2 * r)) rows_flat 0 0"

definition pointy_capacity :: "int \<Rightarrow> int \<Rightarrow> int" where
  "pointy_capacity rows_pointy c = pointy_col_loop rows_pointy c 0 0"


section \<open>Conversion and division\<close>

lemma c_int_nonneg: "0 \<le> x \<Longrightarrow> c_int x = \<lfloor>x\<rfloor>"
  by (simp add: c_int_def)

lemma c_int_of_int: "c_int (of_int k) = k"
  by (simp add: c_int_def)

lemma c_int_half: "0 \<le> k \<Longrightarrow> c_int (of_int k + 1 / 2) = k"
  by (simp add: c_int_def)

lemma c_int_mono: "x \<le> y \<Longrightarrow> c_int x \<le> c_int y"
proof -
  have "\<lceil>x\<rceil> \<le> \<lfloor>y\<rfloor>" if "x < 0" "0 \<le> y"
  proof -
    have "\<lceil>x\<rceil> \<le> 0" using that(1) by (simp add: ceiling_le_zero)
    moreover have "0 \<le> \<lfloor>y\<rfloor>" using that(2) by simp
    ultimately show ?thesis by linarith
  qed
  then show "x \<le> y \<Longrightarrow> c_int x \<le> c_int y"
    unfolding c_int_def by (auto intro: floor_mono ceiling_mono)
qed

section \<open>The counting loops\<close>

declare alt_loop.simps [simp del] flat_row_loop.simps [simp del] pointy_col_loop.simps [simp del]
  fill_parts.simps [simp del]

lemma flat_row_loop_alt:
  "flat_row_loop r w rows i tot =
     alt_loop (c_int (w / (2 * r))) (c_int ((w - r) / (2 * r))) rows i tot"
proof (induction r w rows i tot rule: flat_row_loop.induct)
  case (1 r w rows i tot)
  then show ?case
    by (subst flat_row_loop.simps, subst alt_loop.simps) simp
qed

lemma pointy_col_loop_alt:
  "pointy_col_loop rows cols i tot =
     alt_loop rows (if rows > 0 then rows - 1 else 0) cols i tot"
proof (induction rows cols i tot rule: pointy_col_loop.induct)
  case (1 rows cols i tot)
  then show ?case
    by (subst pointy_col_loop.simps, subst alt_loop.simps) simp
qed

lemma alt_loop_done: "m \<le> i \<Longrightarrow> alt_loop a b m i tot = tot"
  by (subst alt_loop.simps) simp

lemma alt_loop_closed:
  "0 \<le> i \<Longrightarrow> i \<le> m \<Longrightarrow>
   alt_loop a b m i tot =
     tot + a * ((m + 1) div 2 - (i + 1) div 2) + b * (m div 2 - i div 2)"
proof (induction a b m i tot rule: alt_loop.induct)
  case (1 a b m i tot)
  show ?case
  proof (cases "i < m")
    case True
    note ih = 1(1)[OF True]
    show ?thesis
    proof (cases "i mod 2 = 0")
      case even: True
      have c1: "(m + 1) div 2 - (i + 1) div 2 = 1 + ((m + 1) div 2 - (i + 1 + 1) div 2)"
        and c2: "m div 2 - i div 2 = m div 2 - (i + 1) div 2"
        using True even 1(2) by presburger+
      have "alt_loop a b m i tot = alt_loop a b m (i + 1) (tot + a)"
        using True even by (subst alt_loop.simps) simp
      also have "\<dots> = tot + a + a * ((m + 1) div 2 - (i + 1 + 1) div 2) + b * (m div 2 - (i + 1) div 2)"
        using ih 1(2) True even by simp
      finally show ?thesis
        unfolding c1 c2 by (simp add: algebra_simps)
    next
      case odd: False
      have c1: "(m + 1) div 2 - (i + 1) div 2 = (m + 1) div 2 - (i + 1 + 1) div 2"
        and c2: "m div 2 - i div 2 = 1 + (m div 2 - (i + 1) div 2)"
        using True odd 1(2) by presburger+
      have "alt_loop a b m i tot = alt_loop a b m (i + 1) (tot + b)"
        using True odd by (subst alt_loop.simps) simp
      also have "\<dots> = tot + b + a * ((m + 1) div 2 - (i + 1 + 1) div 2) + b * (m div 2 - (i + 1) div 2)"
        using ih 1(2) True odd by simp
      finally show ?thesis
        unfolding c1 c2 by (simp add: algebra_simps)
    qed
  next
    case False
    with 1(3) have "i = m" by simp
    then show ?thesis by (simp add: alt_loop_done)
  qed
qed

lemma alt_loop_0:
  "0 \<le> m \<Longrightarrow> alt_loop a b m 0 0 = a * ((m + 1) div 2) + b * (m div 2)"
  using alt_loop_closed [of 0 m a b 0] by simp

lemma alt_loop_0_neg: "m \<le> 0 \<Longrightarrow> alt_loop a b m 0 0 = 0"
  by (simp add: alt_loop_done)

lemma flat_capacity_closed:
  assumes "0 < r" "0 \<le> rows" "1 \<le> k"
  shows "flat_capacity r rows k = k * ((rows + 1) div 2) + (k - 1) * (rows div 2)"
proof -
  have a: "of_int k * (2 * r) / (2 * r) = (of_int k :: real)"
    using assms(1) by simp
  have "(of_int k * (2 * r) - r) / (2 * r) = (of_int (k - 1) :: real) + 1 / 2"
    using assms(1) by (simp add: field_simps)
  then have b: "c_int ((of_int k * (2 * r) - r) / (2 * r)) = k - 1"
    using c_int_half [of "k - 1"] assms(3) by simp
  show ?thesis
    unfolding flat_capacity_def flat_row_loop_alt a b c_int_of_int
    using assms(2) by (simp add: alt_loop_0)
qed

lemma flat_capacity_no_rows: "rows \<le> 0 \<Longrightarrow> flat_capacity r rows k = 0"
  unfolding flat_capacity_def flat_row_loop_alt by (simp add: alt_loop_0_neg)

lemma pointy_capacity_closed:
  assumes "0 \<le> c"
  shows "pointy_capacity rows c =
           rows * ((c + 1) div 2) + (if rows > 0 then rows - 1 else 0) * (c div 2)"
  unfolding pointy_capacity_def pointy_col_loop_alt
  using assms by (simp add: alt_loop_0)

section \<open>The growth loops\<close>

lemma flat_loop_exit: "\<not> t < n \<Longrightarrow> flat_loop r rows n t w = Some w"
  by (subst flat_loop.simps) simp

lemma flat_loop_step:
  "t < n \<Longrightarrow> flat_loop r rows n t (of_int k * (2 * r)) =
     flat_loop r rows n (flat_capacity r rows (k + 1)) (of_int (k + 1) * (2 * r))"
  by (subst flat_loop.simps) (simp add: flat_capacity_def algebra_simps)

lemma flat_capacity_lower:
  assumes "0 < r" "1 \<le> rows" "1 \<le> k"
  shows "k \<le> flat_capacity r rows k"
proof -
  have "1 \<le> (rows + 1) div 2" using assms(2) by presburger
  then have "k * 1 \<le> k * ((rows + 1) div 2)"
    using assms(3) by (intro mult_left_mono) simp_all
  then have a: "k \<le> k * ((rows + 1) div 2)" by simp
  have b: "0 \<le> (k - 1) * (rows div 2)"
    using assms(2,3) by (intro mult_nonneg_nonneg) simp_all
  have "flat_capacity r rows k = k * ((rows + 1) div 2) + (k - 1) * (rows div 2)"
    using flat_capacity_closed [of r rows k] assms by simp
  with a b show ?thesis by linarith
qed


lemma flat_loop_returns:
  assumes "0 < r" "1 \<le> rows"
  shows "0 \<le> k \<Longrightarrow> t < n \<Longrightarrow>
         \<exists>j. k < j \<and> flat_loop r rows n t (of_int k * (2 * r)) = Some (of_int j * (2 * r))
              \<and> n \<le> flat_capacity r rows j
              \<and> (\<forall>i. k < i \<and> i < j \<longrightarrow> flat_capacity r rows i < n)"
proof (induction "nat (n - k)" arbitrary: k t rule: less_induct)
  case less
  let ?c = "flat_capacity r rows (k + 1)"
  have step: "flat_loop r rows n t (of_int k * (2 * r)) =
              flat_loop r rows n ?c (of_int (k + 1) * (2 * r))"
    using less.prems(2) by (rule flat_loop_step)
  show ?case
  proof (cases "?c < n")
    case False
    then have "flat_loop r rows n t (of_int k * (2 * r)) = Some (of_int (k + 1) * (2 * r))"
      unfolding step by (rule flat_loop_exit)
    with False show ?thesis
      by (intro exI [of _ "k + 1"]) auto
  next
    case True
    have "k + 1 \<le> ?c"
      using flat_capacity_lower [OF assms, of "k + 1"] less.prems(1) by simp
    with True have "nat (n - (k + 1)) < nat (n - k)" by linarith
    from less.hyps [OF this _ True] less.prems(1)
    obtain j where j: "k + 1 < j"
      "flat_loop r rows n ?c (of_int (k + 1) * (2 * r)) = Some (of_int j * (2 * r))"
      "n \<le> flat_capacity r rows j"
      "\<forall>i. k + 1 < i \<and> i < j \<longrightarrow> flat_capacity r rows i < n"
      by auto
    have "flat_capacity r rows i < n" if "k < i" "i < j" for i
    proof (cases "i = k + 1")
      case True
      then show ?thesis using \<open>?c < n\<close> by simp
    next
      case False
      then show ?thesis using that j(4) by simp
    qed
    with j show ?thesis
      unfolding step by (intro exI [of _ j]) auto
  qed
qed


lemma pointy_loop_exit: "\<not> t < n \<Longrightarrow> pointy_loop rows n t c = Some c"
  by (subst pointy_loop.simps) simp

lemma pointy_loop_step:
  "t < n \<Longrightarrow> pointy_loop rows n t c = pointy_loop rows n (pointy_capacity rows c) (c + 1)"
  by (subst pointy_loop.simps) (simp add: pointy_capacity_def)

lemma pointy_capacity_lower:
  assumes "1 \<le> rows" "0 \<le> c"
  shows "(c + 1) div 2 \<le> pointy_capacity rows c"
proof -
  have "0 \<le> (c + 1) div 2" and h: "0 \<le> c div 2" using assms(2) by presburger+
  then have "1 * ((c + 1) div 2) \<le> rows * ((c + 1) div 2)"
    using assms(1) by (intro mult_right_mono) simp_all
  then have a: "(c + 1) div 2 \<le> rows * ((c + 1) div 2)" by simp
  have b: "0 \<le> (rows - 1) * (c div 2)"
    using assms(1) h by (intro mult_nonneg_nonneg) simp_all
  have "pointy_capacity rows c = rows * ((c + 1) div 2) + (rows - 1) * (c div 2)"
    using pointy_capacity_closed [OF assms(2), of rows] assms(1) by simp
  with a b show ?thesis by linarith
qed


lemma pointy_loop_returns:
  assumes "1 \<le> rows"
  shows "1 \<le> c \<Longrightarrow> t < n \<Longrightarrow>
         \<exists>j. c \<le> j \<and> pointy_loop rows n t c = Some (j + 1)
              \<and> n \<le> pointy_capacity rows j
              \<and> (\<forall>i. c \<le> i \<and> i < j \<longrightarrow> pointy_capacity rows i < n)"
proof (induction "nat (2 * n - c)" arbitrary: c t rule: less_induct)
  case less
  let ?p = "pointy_capacity rows c"
  have step: "pointy_loop rows n t c = pointy_loop rows n ?p (c + 1)"
    using less.prems(2) by (rule pointy_loop_step)
  show ?case
  proof (cases "?p < n")
    case False
    then have "pointy_loop rows n t c = Some (c + 1)"
      unfolding step by (rule pointy_loop_exit)
    with False show ?thesis
      by (intro exI [of _ c]) auto
  next
    case True
    have "(c + 1) div 2 \<le> ?p"
      using pointy_capacity_lower [OF assms, of c] less.prems(1) by simp
    with True have "(c + 1) div 2 < n" by linarith
    then have "c + 2 \<le> 2 * n" by presburger
    then have "nat (2 * n - (c + 1)) < nat (2 * n - c)" by linarith
    from less.hyps [OF this _ True] less.prems(1)
    obtain j where j: "c + 1 \<le> j"
      "pointy_loop rows n ?p (c + 1) = Some (j + 1)"
      "n \<le> pointy_capacity rows j"
      "\<forall>i. c + 1 \<le> i \<and> i < j \<longrightarrow> pointy_capacity rows i < n"
      by auto
    have "pointy_capacity rows i < n" if "c \<le> i" "i < j" for i
    proof (cases "i = c")
      case True
      then show ?thesis using \<open>?p < n\<close> by simp
    next
      case False
      then show ?thesis using that j(4) by simp
    qed
    with j show ?thesis
      unfolding step by (intro exI [of _ j]) auto
  qed
qed


lemma sqrt3_bounds: "1 < sqrt 3" "sqrt 3 < 2"
proof -
  show "1 < sqrt 3" by simp
  have "sqrt 3 < sqrt 4" by (rule real_sqrt_less_mono) simp
  then show "sqrt 3 < 2" by simp
qed

lemma rows_flat_pos:
  assumes "0 < r"
  shows "1 \<le> c_int (of_int h / (2 * r)) \<longleftrightarrow> 2 * r \<le> of_int h"
proof -
  have "1 \<le> c_int (of_int h / (2 * r)) \<longleftrightarrow> 1 \<le> of_int h / (2 * r)"
    unfolding c_int_def by (auto simp: le_floor_iff)
  also have "\<dots> \<longleftrightarrow> 2 * r \<le> of_int h"
    using assms by (simp add: field_simps)
  finally show ?thesis .
qed

lemma rows_flat_le_pointy:
  assumes "0 < r" "0 \<le> h"
  shows "c_int (of_int h / (2 * r)) \<le> rows_pointy_of r h"
  unfolding rows_pointy_of_def
proof (rule c_int_mono)
  have "sqrt 3 * r \<le> 2 * r" using sqrt3_bounds(2) assms(1) by simp
  moreover have "0 < sqrt 3 * r" using assms(1) by simp
  ultimately show "of_int h / (2 * r) \<le> of_int h / (sqrt 3 * r)"
    using assms(2) by (intro divide_left_mono) (simp_all add: assms(1))
qed

section \<open>The three strategies and the selection\<close>

lemma flat_width_returns:
  assumes "0 < r" "2 * r \<le> of_int h" "1 \<le> n"
  shows "\<exists>j. 1 \<le> j \<and> flat_width r h n = Some (of_int j * (2 * r))
            \<and> n \<le> flat_capacity r (c_int (of_int h / (2 * r))) j
            \<and> (\<forall>i. 1 \<le> i \<and> i < j \<longrightarrow> flat_capacity r (c_int (of_int h / (2 * r))) i < n)"
proof -
  have rows: "1 \<le> c_int (of_int h / (2 * r))"
    using assms(1,2) by (simp add: rows_flat_pos)
  from flat_loop_returns [OF assms(1) rows, of 0 0 n] assms(3)
  show ?thesis
    unfolding flat_width_def by (auto simp: int_one_le_iff_zero_less)
qed


lemma pointy_columns_returns:
  assumes "1 \<le> rows_pointy_of r h" "1 \<le> n"
  shows "\<exists>c. 1 \<le> c \<and> pointy_columns r h n = Some (c + 1)
            \<and> n \<le> pointy_capacity (rows_pointy_of r h) c
            \<and> (\<forall>i. 1 \<le> i \<and> i < c \<longrightarrow> pointy_capacity (rows_pointy_of r h) i < n)"
  using pointy_loop_returns [OF assms(1), of 1 0 n] assms(2)
  unfolding pointy_columns_def by simp

lemma pointy_width_returns:
  assumes "1 \<le> rows_pointy_of r h" "1 \<le> n"
  shows "\<exists>w. pointy_width r h n = Some w"
  using pointy_columns_returns [OF assms] unfolding pointy_width_def by auto


lemma compute_min_width_returns:
  assumes "0 < r" "2 * r \<le> of_int h" "1 \<le> n"
  shows "\<exists>wf wp. flat_width r h n = Some wf \<and> pointy_width r h n = Some wp
           \<and> compute_min_width r h n = Some (Inr (select_width wf wp (regular_width r h n)))"
proof -
  obtain wf where wf: "flat_width r h n = Some wf"
    using flat_width_returns [OF assms] by blast
  have "0 \<le> h" using assms(1,2) by (smt (verit) of_int_nonneg of_int_less_0_iff)
  then have "c_int (of_int h / (2 * r)) \<le> rows_pointy_of r h"
    using assms(1) by (intro rows_flat_le_pointy)
  moreover have "1 \<le> c_int (of_int h / (2 * r))"
    using assms(1,2) by (simp add: rows_flat_pos)
  ultimately have "1 \<le> rows_pointy_of r h" by linarith
  then obtain wp where wp: "pointy_width r h n = Some wp"
    using pointy_width_returns assms(3) by blast
  show ?thesis
    using wf wp assms(1) by (simp add: compute_min_width_def)
qed





section \<open>Grid width and the reported packing\<close>






section \<open>Rows and capacities of the pointy-topped packing\<close>

lemma sqrt3_lower: "17 / 10 < sqrt 3"
  by (rule real_less_rsqrt) (simp add: power2_eq_square)

lemma sqrt3_upper: "sqrt 3 < 7 / 4"
  by (rule real_less_lsqrt) (simp_all add: power2_eq_square)

lemma rows_pointy_floor:
  assumes "0 < r" "0 \<le> h"
  shows "rows_pointy_of r h = \<lfloor>of_int h / (r * sqrt 3)\<rfloor>"
proof -
  have "0 \<le> of_int h / (sqrt 3 * r)" using assms by simp
  then show ?thesis
    by (simp add: rows_pointy_of_def c_int_nonneg mult.commute)
qed

lemma rows_pointy_eq:
  assumes "0 < r" "0 \<le> h"
    and "of_int k * (r * sqrt 3) \<le> of_int h" "of_int h < of_int (k + 1) * (r * sqrt 3)"
  shows "rows_pointy_of r h = k"
proof -
  have p: "0 < r * sqrt 3" using assms(1) by simp
  have "of_int k \<le> of_int h / (r * sqrt 3)"
    using assms(3) p by (simp add: pos_le_divide_eq)
  moreover have "of_int h / (r * sqrt 3) < of_int k + 1"
    using assms(4) p by (simp add: pos_divide_less_eq)
  ultimately have "\<lfloor>of_int h / (r * sqrt 3)\<rfloor> = k"
    by (simp add: floor_unique)
  then show ?thesis
    using rows_pointy_floor [OF assms(1,2)] by simp
qed

lemma rows_pointy_6_36: "rows_pointy_of 6 36 = 3"
  using sqrt3_lower sqrt3_upper by (intro rows_pointy_eq) simp_all



lemma rows_pointy_45_36: "rows_pointy_of (9 / 2) 36 = 4"
  using sqrt3_lower sqrt3_upper by (intro rows_pointy_eq) simp_all






section \<open>Worked calls\<close>

lemma flat_width_6_36_2: "flat_width 6 36 2 = Some 12"
  by (simp add: flat_width_def flat_loop.simps flat_row_loop_alt alt_loop_0 c_int_def)

lemma pointy_width_6_36_2: "pointy_width 6 36 2 = Some 12"
  by (simp add: pointy_width_def pointy_columns_def rows_pointy_6_36 pointy_loop.simps
      pointy_col_loop_alt alt_loop_0 pointy_width_of_def)

lemma regular_width_6_36_2: "regular_width 6 36 2 = 12"
  by (simp add: regular_width_def rows_regular_of_def c_int_def c_div_def)


lemma flat_width_45_36_25: "flat_width (9 / 2) 36 25 = Some 63"
  by (simp add: flat_width_def flat_loop.simps flat_row_loop_alt alt_loop_0 c_int_def)

lemma pointy_width_45_36_25: "pointy_width (9 / 2) 36 25 = Some (9 + 27 * sqrt 3)"
  by (simp add: pointy_width_def pointy_columns_def rows_pointy_45_36 pointy_loop.simps
      pointy_col_loop_alt alt_loop_0 pointy_width_of_def)

lemma regular_width_45_36_25: "regular_width (9 / 2) 36 25 = 63"
  by (simp add: regular_width_def rows_regular_of_def c_int_def c_div_def)

text \<open>
  The two end-to-end calls of the specification: radius 6, height 36, 2 circles, where
  all three widths are 12 and the regular packing is reported; and radius 4.5, height 36,
  25 circles, where the grid and the flat packing need 63 and the pointy packing
  \<open>9 + 27 * sqrt 3\<close>, about 55.77.
\<close>

lemma compute_min_width_6_36_2:
  "compute_min_width 6 36 2 =
     Some (Inr \<lparr>best_width = 12, smallest_width = 0, printed_width = 12\<rparr>)"
  by (simp add: compute_min_width_def flat_width_6_36_2 pointy_width_6_36_2
      regular_width_6_36_2 select_width_def)

lemma compute_min_width_45_36_25:
  "compute_min_width (9 / 2) 36 25 =
     Some (Inr \<lparr>best_width = 9 + 27 * sqrt 3, smallest_width = 2,
                 printed_width = 9 + 27 * sqrt 3\<rparr>)"
proof -
  have "9 + 27 * sqrt 3 < (63::real)" using sqrt3_upper by simp
  then show ?thesis
    by (simp add: compute_min_width_def flat_width_45_36_25 pointy_width_45_36_25
        regular_width_45_36_25 select_width_def)
qed


section \<open>No bound on the loops and no validation of the arguments\<close>








section \<open>Termination of the growth loops\<close>






section \<open>The pointy-topped width\<close>




section \<open>Sorting and packing the strips\<close>

lemma compare_desc_le: "compare_desc x y \<le> 0 \<longleftrightarrow> y \<le> x"
  by (simp add: compare_desc_def Let_def)

lemma mset_insert_desc: "mset (insert_desc x ys) = add_mset x (mset ys)"
  by (induction ys) simp_all

lemma set_insert_desc: "set (insert_desc x ys) = insert x (set ys)"
  by (induction ys) auto

lemma sorted_insert_desc:
  "sorted_wrt (\<ge>) ys \<Longrightarrow> sorted_wrt (\<ge>) (insert_desc x ys)"
  by (induction ys) (auto simp: compare_desc_le set_insert_desc)

lemma mset_qsort_desc: "mset (qsort_desc xs) = mset xs"
  unfolding qsort_desc_def by (induction xs) (simp_all add: mset_insert_desc)


lemma length_qsort_desc: "length (qsort_desc xs) = length xs"
  using mset_qsort_desc [of xs] by (metis size_mset)

lemma sorted_qsort_desc: "sorted_wrt (\<ge>) (qsort_desc xs)"
  unfolding qsort_desc_def by (induction xs) (simp_all add: sorted_insert_desc)

text \<open>Any descending permutation of the array is the one the model computes.\<close>

lemma qsort_desc_unique:
  fixes xs ys :: "real list"
  assumes "mset ys = mset xs" "sorted_wrt (\<ge>) ys"
  shows "ys = qsort_desc xs"
proof -
  have "sorted (rev ys)" using assms(2) by (simp add: sorted_wrt_rev)
  moreover have "sorted (rev (qsort_desc xs))"
    using sorted_qsort_desc [of xs] by (simp add: sorted_wrt_rev)
  moreover have "mset (rev ys) = mset (rev (qsort_desc xs))"
    using assms(1) by (simp add: mset_qsort_desc)
  ultimately have "rev ys = rev (qsort_desc xs)"
    by (metis properties_for_sort)
  then show ?thesis by simp
qed








text \<open>
  There is never more than one rectangle per strip, so the source's arrays of
  \<^verbatim>\<open>num_rectangles\<close> entries are long enough for every input.
\<close>

lemma first_fit_length: "first_fit w rects = Some rects' \<Longrightarrow> length rects' = length rects"
  by (induction rects arbitrary: rects') (auto split: if_splits)

lemma pack_loop_length: "length (pack_loop W ws rects) \<le> length rects + length ws"
proof (induction ws arbitrary: rects)
  case Nil
  show ?case by simp
next
  case (Cons w ws)
  have "length (place W w rects) \<le> length rects + 1"
    by (cases "first_fit w rects") (simp_all add: place_def first_fit_length)
  with Cons [of "place W w rects"] show ?case by simp
qed


lemma qsort_desc_scenario: "qsort_desc [360, 360, 30, 72, 18] = [360, 360, 72, 30, 18]"
  by (simp add: qsort_desc_def compare_desc_def)

lemma pack_loop_scenario:
  "pack_loop 360 [360, 360, 72, 30, 18] [] =
     [\<lparr>remaining_space = 0, packed_rects = [360]\<rparr>,
      \<lparr>remaining_space = 0, packed_rects = [360]\<rparr>,
      \<lparr>remaining_space = 240, packed_rects = [72, 30, 18]\<rparr>]"
  by (simp add: place_def)


text \<open>
  C7.  The strips 360, 360, 30, 72, 18 are sorted to 360, 360, 72, 30, 18 and fill
  three large rectangles of width 360, holding 360, 360 and 72, 30, 18; the waste is
  240, which is \<open>240 / (3 * 360) * 100\<close> per cent.
\<close>

theorem binner_scenario:
  "qsort_desc [360, 360, 30, 72, 18] = [360, 360, 72, 30, 18]
   \<and> pack_rectangles [360, 360, 30, 72, 18] =
       \<lparr>large_rect_count = 3, total_waste = 240,
        waste_percent = Some (240 / (3 * 360) * 100),
        details = [[360], [360], [72, 30, 18]]\<rparr>"
  by (simp add: pack_rectangles_def pack_rectangles_w_def LARGE_RECT_WIDTH_def
      qsort_desc_scenario place_def Let_def)

section \<open>Splitting the widths\<close>

lemma fill_parts_eq:
  "length buf \<le> len \<Longrightarrow>
   fill_parts len W parts j buf =
     (if length buf + nat (parts - j) \<le> len then Inr (buf @ replicate (nat (parts - j)) W)
      else Inl Buffer_Overrun)"
proof (induction len W parts j buf rule: fill_parts.induct)
  case (1 len W parts j buf)
  show ?case
  proof (cases "j < parts")
    case False
    then show ?thesis using "1.prems" by (subst fill_parts.simps) simp
  next
    case True
    then have n: "nat (parts - j) = Suc (nat (parts - (j + 1)))" by simp
    show ?thesis
    proof (cases "length buf < len")
      case False
      then show ?thesis
        using True by (subst fill_parts.simps) (simp add: store_def n)
    next
      case fits: True
      then have s: "store len buf W = Inr (buf @ [W])" by (simp add: store_def)
      have l: "length (buf @ [W]) \<le> len" using fits by simp
      have "fill_parts len W parts j buf = fill_parts len W parts (j + 1) (buf @ [W])"
        using True by (subst fill_parts.simps) (simp add: s)
      also have "\<dots> = (if length (buf @ [W]) + nat (parts - (j + 1)) \<le> len
                        then Inr ((buf @ [W]) @ replicate (nat (parts - (j + 1))) W)
                        else Inl Buffer_Overrun)"
        using "1.IH" [OF True s l] .
      also have "\<dots> = (if length buf + nat (parts - j) \<le> len
                        then Inr (buf @ replicate (nat (parts - j)) W)
                        else Inl Buffer_Overrun)"
        unfolding n by simp
      finally show ?thesis .
    qed
  qed
qed

lemma adjust_one_eq:
  assumes "0 < W" "length buf \<le> len"
  shows "adjust_one len W w buf =
     (if length buf + length (spec_split W w) \<le> len then Inr (buf @ spec_split W w)
      else Inl Buffer_Overrun)"
proof (cases "w > W")
  case False
  then show ?thesis
    by (simp add: adjust_one_def spec_split_def store_def)
next
  case True
  then have "0 \<le> w / W" using assms by simp
  then have c: "c_int (w / W) = \<lfloor>w / W\<rfloor>" by (rule c_int_nonneg)
  show ?thesis
    using True assms
    by (simp add: adjust_one_def spec_split_def c Let_def fill_parts_eq store_def)
qed

lemma adjust_loop_eq:
  assumes "0 < W"
  shows "length buf \<le> len \<Longrightarrow>
   adjust_loop len W ws buf =
     (if length buf + length (concat (map (spec_split W) ws)) \<le> len
      then Inr (buf @ concat (map (spec_split W) ws))
      else Inl Buffer_Overrun)"
proof (induction ws arbitrary: buf)
  case Nil
  then show ?case by simp
next
  case (Cons w ws)
  show ?case
  proof (cases "length buf + length (spec_split W w) \<le> len")
    case False
    then show ?thesis
      using Cons.prems by (simp add: adjust_one_eq [OF assms])
  next
    case True
    then have "length (buf @ spec_split W w) \<le> len" by simp
    from Cons.IH [OF this] True Cons.prems show ?thesis
      by (simp add: adjust_one_eq [OF assms] add.assoc)
  qed
qed

text \<open>
  While the scratch array and the caller's array are long enough, the function produces
  the strips of the specification, width by width and in order; otherwise it writes
  past the end of one of them.
\<close>

lemma adjust_best_widths_w_eq:
  assumes "0 < W"
  shows "adjust_best_widths_w W room ws =
     (if length (concat (map (spec_split W) ws)) \<le> length ws * 2
         \<and> length (concat (map (spec_split W) ws)) \<le> room
      then Inr (concat (map (spec_split W) ws))
      else Inl Buffer_Overrun)"
  by (simp add: adjust_best_widths_w_def adjust_loop_eq [OF assms])

lemma spec_split_nonempty:
  assumes "0 < C"
  shows "spec_split C w \<noteq> []"
proof (cases "w > C")
  case False
  then show ?thesis by (simp add: spec_split_def)
next
  case True
  then have "1 \<le> w / C" using assms by simp
  then have "1 \<le> \<lfloor>w / C\<rfloor>" by (simp add: le_floor_iff)
  then have "0 < nat \<lfloor>w / C\<rfloor>" by simp
  then show ?thesis using True by (simp add: spec_split_def)
qed

lemma spec_split_sum:
  assumes "0 < C"
  shows "sum_list (spec_split C w) = w"
proof (cases "w > C")
  case False
  then show ?thesis by (simp add: spec_split_def)
next
  case True
  have "of_int \<lfloor>w / C\<rfloor> \<le> w / C" by (rule of_int_floor_le)
  then have le: "of_int \<lfloor>w / C\<rfloor> * C \<le> w"
    unfolding pos_le_divide_eq [OF assms] .
  have "0 \<le> \<lfloor>w / C\<rfloor>" using True assms by simp
  then have n: "real (nat \<lfloor>w / C\<rfloor>) = of_int \<lfloor>w / C\<rfloor>" by simp
  show ?thesis
  proof (cases "w - of_int \<lfloor>w / C\<rfloor> * C > 0")
    case pos: True
    then show ?thesis
      using True by (simp add: spec_split_def sum_list_replicate n)
  next
    case False
    with le have "of_int \<lfloor>w / C\<rfloor> * C = w" by simp
    then show ?thesis
      using True False by (simp add: spec_split_def sum_list_replicate n)
  qed
qed

lemma spec_split_bounds:
  assumes "0 < C" "0 < w" "s \<in> set (spec_split C w)"
  shows "0 < s \<and> s \<le> C"
proof (cases "w > C")
  case False
  then show ?thesis using assms by (simp add: spec_split_def)
next
  case True
  have "w / C < of_int \<lfloor>w / C\<rfloor> + 1" by linarith
  then have "w < (of_int \<lfloor>w / C\<rfloor> + 1) * C"
    unfolding pos_divide_less_eq [OF assms(1)] .
  then have "w - of_int \<lfloor>w / C\<rfloor> * C < C" by (simp add: algebra_simps)
  then show ?thesis
    using True assms by (auto simp: spec_split_def split: if_splits)
qed

lemma spec_split_750: "spec_split 360 750 = [360, 360, 30]"
proof -
  have "\<lfloor>750 / 360 :: real\<rfloor> = 2" by (simp add: floor_unique)
  then show ?thesis
    by (simp add: spec_split_def numeral_2_eq_2)
qed

section \<open>The program's own run\<close>

lemma best_widths_loop_returns:
  "length rs = length ns \<Longrightarrow>
   \<forall>(r, n) \<in> set (zip rs ns). 0 < r \<and> 2 * r \<le> of_int HEIGHT \<and> 1 \<le> n \<Longrightarrow>
   \<exists>ws. best_widths_loop rs ns = Some (Inr ws) \<and> length ws = length rs
        \<and> (\<forall>i < length rs. \<exists>sol. compute_min_width (rs ! i) HEIGHT (ns ! i) = Some (Inr sol)
                                  \<and> ws ! i = best_width sol)"
proof (induction rs ns rule: list_induct2)
  case Nil
  show ?case by simp
next
  case (Cons r rs n ns)
  from Cons.prems have "0 < r" "2 * r \<le> of_int HEIGHT" "1 \<le> n" by simp_all
  from compute_min_width_returns [OF this]
  obtain sol where sol: "compute_min_width r HEIGHT n = Some (Inr sol)" by blast
  from Cons.IH Cons.prems obtain ws where ws:
    "best_widths_loop rs ns = Some (Inr ws)" "length ws = length rs"
    "\<forall>i < length rs. \<exists>sol. compute_min_width (rs ! i) HEIGHT (ns ! i) = Some (Inr sol)
                              \<and> ws ! i = best_width sol"
    by auto
  have "\<exists>s. compute_min_width ((r # rs) ! i) HEIGHT ((n # ns) ! i) = Some (Inr s)
            \<and> (best_width sol # ws) ! i = best_width s" if "i < length (r # rs)" for i
    using that sol ws(3) by (cases i) simp_all
  then show ?case
    using sol ws(1,2) by simp
qed

lemma flat_width_6_36_100: "flat_width 6 36 100 = Some 408"
proof -
  have rows: "c_int (of_int 36 / (2 * 6)) = 3" by (simp add: c_int_def)
  have cap: "flat_capacity 6 3 k = 3 * k - 1" if "1 \<le> k" for k
    using flat_capacity_closed [of 6 3 k] that by simp
  from flat_width_returns [of 6 36 100]
  obtain j where j: "1 \<le> j" "flat_width 6 36 100 = Some (of_int j * (2 * 6))"
    "100 \<le> flat_capacity 6 3 j" "\<forall>i. 1 \<le> i \<and> i < j \<longrightarrow> flat_capacity 6 3 i < 100"
    unfolding rows by auto
  have "34 \<le> j" using j(1,3) by (simp add: cap)
  moreover have "\<not> 34 < j"
  proof
    assume "34 < j"
    with j(4) have "flat_capacity 6 3 34 < 100" by simp
    then show False by (simp add: cap)
  qed
  ultimately have "j = 34" by simp
  with j(2) show ?thesis by simp
qed

lemma pointy_width_6_36_100: "pointy_width 6 36 100 = Some (12 + 234 * sqrt 3)"
proof -
  have cap: "pointy_capacity 3 c = 3 * ((c + 1) div 2) + 2 * (c div 2)" if "0 \<le> c" for c
    using pointy_capacity_closed [OF that, of 3] by simp
  from pointy_columns_returns [of 6 36 100]
  obtain c where c: "1 \<le> c" "pointy_columns 6 36 100 = Some (c + 1)"
    "100 \<le> pointy_capacity 3 c" "\<forall>i. 1 \<le> i \<and> i < c \<longrightarrow> pointy_capacity 3 i < 100"
    unfolding rows_pointy_6_36 by auto
  have "40 \<le> c"
  proof (rule ccontr)
    assume "\<not> 40 \<le> c"
    then have "c \<le> 39" by simp
    then have "3 * ((c + 1) div 2) + 2 * (c div 2) \<le> 98" by presburger
    with c(1,3) show False by (simp add: cap)
  qed
  moreover have "\<not> 40 < c"
  proof
    assume "40 < c"
    with c(4) have "pointy_capacity 3 40 < 100" by simp
    then show False by (simp add: cap)
  qed
  ultimately have "c = 40" by simp
  with c(2) show ?thesis
    by (simp add: pointy_width_def pointy_width_of_def)
qed

lemma regular_width_6_36_100: "regular_width 6 36 100 = 408"
  by (simp add: regular_width_def rows_regular_of_def c_int_def c_div_def)

lemma best_width_6_36_100:
  "compute_min_width 6 36 100 =
     Some (Inr \<lparr>best_width = 408, smallest_width = 0, printed_width = 408\<rparr>)"
proof -
  have "(408::real) \<le> 12 + 234 * sqrt 3" using sqrt3_lower by simp
  then show ?thesis
    by (simp add: compute_min_width_def flat_width_6_36_100 pointy_width_6_36_100
        regular_width_6_36_100 select_width_def)
qed

lemma spec_split_wide:
  assumes "0 < C" "C < w"
  shows "2 \<le> length (spec_split C w)"
proof -
  have "1 \<le> w / C" using assms by simp
  then have one: "1 \<le> \<lfloor>w / C\<rfloor>" by (simp add: le_floor_iff)
  show ?thesis
  proof (cases "2 \<le> \<lfloor>w / C\<rfloor>")
    case True
    then have "2 \<le> nat \<lfloor>w / C\<rfloor>" by linarith
    then show ?thesis using assms(2) by (simp add: spec_split_def)
  next
    case False
    with one have f: "\<lfloor>w / C\<rfloor> = 1" by linarith
    then show ?thesis using assms(2) by (simp add: spec_split_def)
  qed
qed

lemma concat_longer:
  assumes "\<And>x. f x \<noteq> []"
  shows "x \<in> set xs \<Longrightarrow> 2 \<le> length (f x) \<Longrightarrow> length xs < length (concat (map f xs))"
proof (induction xs)
  case Nil
  then show ?case by simp
next
  case (Cons y ys)
  have all: "length zs \<le> length (concat (map f zs))" for zs
  proof (induction zs)
    case Nil
    show ?case by simp
  next
    case (Cons z zs)
    have "1 \<le> length (f z)" using assms [of z] by (cases "f z") simp_all
    with Cons show ?case by simp
  qed
  show ?case
  proof (cases "x = y")
    case True
    with Cons.prems(2) all [of ys] show ?thesis by simp
  next
    case False
    with Cons have "length ys < length (concat (map f ys))" by simp
    moreover have "1 \<le> length (f y)" using assms [of y] by (cases "f y") simp_all
    ultimately show ?thesis by simp
  qed
qed

lemma adjust_best_widths_w_overrun:
  assumes "0 < W" "w \<in> set ws" "W < w" "room \<le> length ws"
  shows "adjust_best_widths_w W room ws = Inl Buffer_Overrun"
proof -
  have "length ws < length (concat (map (spec_split W) ws))"
    using spec_split_nonempty [OF assms(1)] assms(2) spec_split_wide [OF assms(1,3)]
    by (rule concat_longer)
  with assms(4) show ?thesis
    by (simp add: adjust_best_widths_w_eq [OF assms(1)])
qed

lemma main_overrun: "main = Some (Inl Buffer_Overrun)"
proof -
  have len: "length radii = length num_circles" by (simp add: radii_def num_circles_def)
  have "\<forall>(r, n) \<in> set (zip radii num_circles). 0 < r \<and> 2 * r \<le> of_int HEIGHT \<and> 1 \<le> n"
    by (simp add: radii_def num_circles_def HEIGHT_def)
  from best_widths_loop_returns [OF len this]
  obtain ws where ws: "best_widths_loop radii num_circles = Some (Inr ws)"
    "length ws = length radii"
    "\<forall>i < length radii. \<exists>sol. compute_min_width (radii ! i) HEIGHT (num_circles ! i) = Some (Inr sol)
                                  \<and> ws ! i = best_width sol"
    by blast
  have six: "6 < length radii" "radii ! 6 = 6" "num_circles ! 6 = 100"
    by (simp_all add: radii_def num_circles_def)
  from ws(3) [rule_format, OF six(1)]
  obtain sol where "compute_min_width 6 36 100 = Some (Inr sol)" "ws ! 6 = best_width sol"
    unfolding six(2,3) HEIGHT_def by blast
  then have "ws ! 6 = 408"
    by (auto simp: best_width_6_36_100)
  moreover have "6 < length ws" using ws(2) \<open>6 < length radii\<close> by simp
  ultimately have "408 \<in> set ws" by (metis nth_mem)
  then have "adjust_best_widths (length radii) ws = Inl Buffer_Overrun"
    unfolding adjust_best_widths_def LARGE_RECT_WIDTH_def
    using ws(2) by (intro adjust_best_widths_w_overrun [of 360 408]) simp_all
  then show ?thesis
    by (simp add: main_def ws(1))
qed

lemma adjust_750: "adjust_best_widths room [750] = Inl Buffer_Overrun"
  by (simp add: adjust_best_widths_def LARGE_RECT_WIDTH_def adjust_best_widths_w_eq spec_split_750)

text \<open>
  C5.  The splitter is meant to emit, for a width above the capacity, the full pieces
  and then the positive remainder (\<open>adjust_best_widths_w_eq\<close>, \<open>spec_split_sum\<close> and
  \<open>spec_split_bounds\<close> show that it does whenever its arrays are long enough).  Its
  scratch array has two slots per input width and it copies the pieces back into the
  caller's array of one slot per width.  The single width 750 needs three slots, and
  the program's own call needs 23 slots in an array of 22: both write past the end.
\<close>

theorem splitter_overrun:
  "spec_split 360 750 = [360, 360, 30]
   \<and> adjust_best_widths 1 [750] = Inl Buffer_Overrun
   \<and> adjust_best_widths 3 [750] = Inl Buffer_Overrun
   \<and> main = Some (Inl Buffer_Overrun)"
  by (simp add: spec_split_750 adjust_750 main_overrun)

end
